theory Spec2Isabelle
  imports Main "HOL-Library.Word" "HOL-Library.Signed_Division"
begin

section \<open>The crawler engine of pholcus (app/crawler/crawler.go)\<close>

text \<open>
  The engine is a Go struct with an identifier and a two-element array
  \<^verbatim>\<open>pause [2]int64\<close> (shortest interval, width of the random increase, both in
  milliseconds). Machine integers are 64-bit words: \<open>+\<close> and \<open>*\<close> wrap around, \<open>sint\<close>
  reads the two's complement value, \<open><s\<close> and \<open>\<le>s\<close> are Go's signed comparisons.
  The embedded \<^verbatim>\<open>Spider\<close>, \<^verbatim>\<open>Downloader\<close> and \<^verbatim>\<open>Pipeline\<close> are collaborators
  defined elsewhere; their answers are parameters of the model (record \<open>env\<close> below)
  and their calls are recorded as events.
\<close>

type_synonym int64 = "64 word"

text \<open>
  The value carried by a Go \<^verbatim>\<open>panic\<close>: \<^verbatim>\<open>nil\<close>, a string, or a value of any other
  dynamic type (given by its printed form). \<^verbatim>\<open>panic(nil)\<close> is legal Go, and with the
  runtime this code was written for (before Go 1.21) \<^verbatim>\<open>recover()\<close> then returns \<^verbatim>\<open>nil\<close>,
  as it does when nothing panicked. The handler of \<^verbatim>\<open>Process\<close> tells a string from
  other values with the type assertion \<^verbatim>\<open>err.(string)\<close>.
\<close>

datatype payload = PNil | PString string | PNonString string

record crawler =
  id_crawler :: int
  pause :: "int64 \<times> int64"

text \<open>\<^verbatim>\<open>New\<close>: the array \<^verbatim>\<open>pause\<close> starts with Go's zero values.\<close>

definition New :: "int \<Rightarrow> crawler" where
  "New i = \<lparr>id_crawler = i, pause = (0, 0)\<rparr>"

definition SetId :: "crawler \<Rightarrow> int \<Rightarrow> crawler" where
  "SetId self i = self\<lparr>id_crawler := i\<rparr>"

definition GetId :: "crawler \<Rightarrow> int" where
  "GetId self = id_crawler self"

subsection \<open>Initialisation of the pause configuration\<close>

text \<open>
  \<^verbatim>\<open>Init\<close> reads the configured \<^verbatim>\<open>cache.Task.Pausetime\<close> (an \<^verbatim>\<open>int64\<close>, here the
  second argument) and stores
  \<^verbatim>\<open>pause[0] = Pausetime / 2\<close>, then \<^verbatim>\<open>pause[1] = pause[0] * 3\<close> if \<^verbatim>\<open>pause[0] > 0\<close>
  and \<^verbatim>\<open>pause[1] = 1\<close> otherwise. Go's integer division truncates towards zero
  (\<open>sdiv\<close> on \<open>int\<close>); the product wraps around in 64 bits. The calls
  \<^verbatim>\<open>sp.ReqmatrixInit()\<close> and \<^verbatim>\<open>Pipeline.Init(sp)\<close> do not touch \<^verbatim>\<open>pause\<close>.
\<close>

definition Init :: "crawler \<Rightarrow> int64 \<Rightarrow> crawler" where
  "Init self Pausetime =
     (let p0 = word_of_int (sint Pausetime sdiv 2);
          p1 = (if 0 <s p0 then p0 * 3 else 1)
      in self\<lparr>pause := (p0, p1)\<rparr>)"

subsection \<open>The jittered delay\<close>

text \<open>
  \<^verbatim>\<open>rand.Int63n(n)\<close> of Go's standard library panics with the message below when
  \<^verbatim>\<open>n <= 0\<close> and otherwise returns a value in \<open>[0, n)\<close>. The generator's raw draw
  is the parameter \<open>raw\<close>; reducing it modulo \<open>n\<close> reaches every value of the
  range and no other.
\<close>

definition Int63n :: "int64 \<Rightarrow> nat \<Rightarrow> payload + int64" where
  "Int63n n raw =
     (if n \<le>s 0 then Inl (PString ''invalid argument to Int63n'')
      else Inr (word_of_nat (raw mod nat (sint n))))"

text \<open>
  The local variable of \<^verbatim>\<open>sleep\<close>:
  \<^verbatim>\<open>sleeptime := self.pause[0] + rand.Int63n(self.pause[1])\<close>, a wrapping 64-bit sum,
  or the panic of the draw.
\<close>

definition sleeptime :: "crawler \<Rightarrow> nat \<Rightarrow> payload + int64" where
  "sleeptime self raw =
     (case Int63n (snd (pause self)) raw of
        Inl p \<Rightarrow> Inl p
      | Inr r \<Rightarrow> Inr (fst (pause self) + r))"

subsection \<open>Requests, contexts, collaborators and events\<close>

text \<open>
  A request is passed through by the engine, which reads its URL and rule name only.
  A context is what \<^verbatim>\<open>Downloader.Download\<close> returns: the transport error if any,
  what \<^verbatim>\<open>Parse\<close> does when called with a rule name (it returns, or it panics with a
  payload), and the items and files it holds once \<^verbatim>\<open>Parse\<close> has returned.
\<close>

record request =
  Url :: string
  RuleName :: string

type_synonym DataCell = string
type_synonym FileCell = string

datatype parse_result = Returns | Panics payload

record "context" =
  GetError :: "string option"
  Parse :: "string \<Rightarrow> parse_result"
  PullItems :: "DataCell list"
  PullFiles :: "FileCell list"

text \<open>
  The collaborators' answers. \<open>ACTIVE_STOP\<close> is the constant \<^verbatim>\<open>spider.ACTIVE_STOP\<close>,
  declared outside this file. \<open>DoHistory e req ok\<close> is the boolean that
  \<^verbatim>\<open>Spider.DoHistory(req, ok)\<close> returns. \<open>RequestPull e i\<close> is what the \<open>i\<close>-th call of
  \<^verbatim>\<open>Spider.RequestPull()\<close> returns (\<open>None\<close> for \<^verbatim>\<open>nil\<close>), \<open>CanStop e i\<close> what
  \<^verbatim>\<open>Spider.CanStop()\<close> answers when asked in iteration \<open>i\<close>, and \<open>Int63 e i\<close> the raw
  random draw of iteration \<open>i\<close>. The dispatch loop pulls once per iteration, so the
  iteration number indexes all three.

  Of the collaborators' calls only \<^verbatim>\<open>Context.Parse\<close> may panic: it runs the rules of the
  spider, and a stop requested from outside interrupts it with the payload
  \<^verbatim>\<open>spider.ACTIVE_STOP\<close>. The downloader reports a failure in the context it returns,
  and the spider, the pipeline, the counters and the logger return normally.
\<close>

record env =
  ACTIVE_STOP :: string
  Download :: "request \<Rightarrow> context"
  DoHistory :: "request \<Rightarrow> bool \<Rightarrow> bool"
  RequestPull :: "nat \<Rightarrow> request option"
  CanStop :: "nat \<Rightarrow> bool"
  Int63 :: "nat \<Rightarrow> nat"

text \<open>
  Every call of a collaborator, of the runtime (\<^verbatim>\<open>go\<close>, \<^verbatim>\<open>close\<close>, channel receive,
  \<^verbatim>\<open>recover\<close> ending a panic, with the payload it returns) and of the logger is an
  event; a run of the code is the list of its events in order.
\<close>

datatype event =
    Pipeline_Start
  | Pipeline_Stop
  | Pipeline_CollectData DataCell
  | Pipeline_CollectFile FileCell
  | Spider_Start
  | Spider_RequestPull "request option"
  | Spider_CanStop bool
  | Spider_RequestUse
  | Spider_RequestFree
  | Spider_Defer
  | Spider_DoHistory request bool
  | Downloader_Download request
  | Context_Parse string
  | PutContext request
  | cache_PageFailCount
  | cache_PageSuccCount
  | Log_Debug string
  | Log_Error string string string
  | Log_Informational string
  | time_Sleep int64
  | recover_returns payload
  | go_run
  | go_Process request
  | chan_close
  | chan_recv

text \<open>The events of a block of code, and the panic still in flight when it ends.\<close>

type_synonym outcome = "event list \<times> payload option"

subsection \<open>\<^verbatim>\<open>sleep\<close>\<close>

text \<open>
  \<^verbatim>\<open>time.Sleep(time.Duration(sleeptime) * time.Millisecond)\<close>: a \<^verbatim>\<open>Duration\<close> is an
  \<^verbatim>\<open>int64\<close> count of nanoseconds, and the product wraps around.
\<close>

definition Millisecond :: int64 where
  "Millisecond = 1000000"

definition sleep :: "crawler \<Rightarrow> nat \<Rightarrow> payload + event list" where
  "sleep self raw =
     (case sleeptime self raw of
        Inl p \<Rightarrow> Inl p
      | Inr t \<Rightarrow> Inr [time_Sleep (t * Millisecond)])"

subsection \<open>\<^verbatim>\<open>Process\<close>\<close>

text \<open>
  The failure bookkeeping, written twice in the source (after a download error and in
  the recovery handler): \<^verbatim>\<open>if self.Spider.DoHistory(req, false) { cache.PageFailCount() }\<close>.
\<close>

definition record_failure :: "env \<Rightarrow> request \<Rightarrow> event list" where
  "record_failure e req =
     (if DoHistory e req False
      then [Spider_DoHistory req False, cache_PageFailCount]
      else [Spider_DoHistory req False])"

text \<open>
  The statements of \<^verbatim>\<open>Process\<close> after the \<^verbatim>\<open>defer\<close>: parse, record the success, count
  it, log it, hand every item and then every file to the pipeline, and put the
  context back into the pool. A panic of \<^verbatim>\<open>Parse\<close> ends the block at once.
\<close>

definition guarded :: "env \<Rightarrow> request \<Rightarrow> context \<Rightarrow> outcome" where
  "guarded e req ctx =
     (case Parse ctx (RuleName req) of
        Panics p \<Rightarrow> ([Context_Parse (RuleName req)], Some p)
      | Returns \<Rightarrow>
          ([Context_Parse (RuleName req),
            Spider_DoHistory req True,
            cache_PageSuccCount,
            Log_Informational (Url req)]
           @ map Pipeline_CollectData (PullItems ctx)
           @ map Pipeline_CollectFile (PullFiles ctx)
           @ [PutContext req], None))"

text \<open>
  The deferred closure. \<^verbatim>\<open>recover()\<close> returns \<^verbatim>\<open>nil\<close> when no panic is in flight, and
  otherwise returns the payload and ends the panic. The closure acts only when
  \<^verbatim>\<open>err != nil\<close>, so a panic with the payload \<^verbatim>\<open>nil\<close> is ended and nothing else
  happens. \<^verbatim>\<open>activeStop, _ := err.(string)\<close> is the payload when it is a string and
  the empty string otherwise.
\<close>

definition deferred :: "env \<Rightarrow> request \<Rightarrow> payload option \<Rightarrow> outcome" where
  "deferred e req inflight =
     (case inflight of
        None \<Rightarrow> ([], None)
      | Some err \<Rightarrow>
          if err \<noteq> PNil
          then (let activeStop =
                      (case err of PNil \<Rightarrow> [] | PString s \<Rightarrow> s | PNonString v \<Rightarrow> [])
                in if activeStop = ACTIVE_STOP e then ([recover_returns err], None)
                   else ([recover_returns err] @ record_failure e req
                         @ [Log_Error ''process'' (Url req)
                              (case err of PNil \<Rightarrow> ''<nil>'' | PString s \<Rightarrow> s
                               | PNonString v \<Rightarrow> v)], None))
          else ([recover_returns err], None))"

definition Process :: "env \<Rightarrow> request \<Rightarrow> outcome" where
  "Process e req =
     (let ctx = Download e req;
          downUrl = Url req
      in case GetError ctx of
           Some err \<Rightarrow>
             ([Downloader_Download req] @ record_failure e req
              @ [Log_Error ''download'' downUrl err], None)
         | None \<Rightarrow>
             (let (body, inflight) = guarded e req ctx;
                  (handler, escaped) = deferred e req inflight
              in ([Downloader_Download req] @ body @ handler, escaped)))"

subsection \<open>The dispatch loop \<^verbatim>\<open>run\<close>\<close>

definition GetOne :: "env \<Rightarrow> nat \<Rightarrow> request option" where
  "GetOne e i = RequestPull e i"

definition UseOne :: "event list" where
  "UseOne = [Spider_RequestUse]"

definition FreeOne :: "event list" where
  "FreeOne = [Spider_RequestFree]"

text \<open>
  The closure started with \<^verbatim>\<open>go\<close> for an admitted request: log, \<^verbatim>\<open>Process\<close>, and the
  deferred \<^verbatim>\<open>FreeOne\<close>, which runs whether \<^verbatim>\<open>Process\<close> returns or panics and does not
  recover.
\<close>

definition task :: "env \<Rightarrow> request \<Rightarrow> outcome" where
  "task e req =
     (let (evs, escaped) = Process e req
      in ([Log_Debug (Url req)] @ evs @ FreeOne, escaped))"

text \<open>
  One iteration of the \<^verbatim>\<open>for\<close> loop. \<^verbatim>\<open>break\<close> leaves the loop before the delay; in
  every other case the iteration ends with \<^verbatim>\<open>self.sleep()\<close>, whose draw may panic.
\<close>

datatype flow = Continue | Break | Panicked payload

definition iteration :: "crawler \<Rightarrow> env \<Rightarrow> nat \<Rightarrow> event list \<times> flow" where
  "iteration self e i =
     (let (evs, stop) =
            (case GetOne e i of
               None \<Rightarrow> ([Spider_RequestPull None, Spider_CanStop (CanStop e i)], CanStop e i)
             | Some req \<Rightarrow> ([Spider_RequestPull (Some req)] @ UseOne @ [go_Process req], False))
      in if stop then (evs, Break)
         else (case sleep self (Int63 e i) of
                 Inl p \<Rightarrow> (evs, Panicked p)
               | Inr sl \<Rightarrow> (evs @ sl, Continue)))"

text \<open>
  The loop, from iteration \<open>i\<close> on, with fuel: \<open>None\<close> says that the loop is still
  running after \<open>fuel\<close> iterations. When the loop is left by \<^verbatim>\<open>break\<close>,
  \<^verbatim>\<open>self.Spider.Defer()\<close> follows. The events are those of the loop's own goroutine.
\<close>

fun run :: "crawler \<Rightarrow> env \<Rightarrow> nat \<Rightarrow> nat \<Rightarrow> outcome option" where
  "run self e 0 i = None"
| "run self e (Suc fuel) i =
     (case iteration self e i of
        (evs, Break) \<Rightarrow> Some (evs @ [Spider_Defer], None)
      | (evs, Panicked p) \<Rightarrow> Some (evs, Some p)
      | (evs, Continue) \<Rightarrow>
          (case run self e fuel (Suc i) of
             None \<Rightarrow> None
           | Some (rest, escaped) \<Rightarrow> Some (evs @ rest, escaped)))"

subsection \<open>Reading a trace\<close>

text \<open>
  The bookkeeping of a request: the calls of \<^verbatim>\<open>Spider.DoHistory\<close> and of the two page
  counters, in the order in which they happen.
\<close>

fun is_bookkeeping :: "event \<Rightarrow> bool" where
  "is_bookkeeping (Spider_DoHistory req ok) = True"
| "is_bookkeeping cache_PageFailCount = True"
| "is_bookkeeping cache_PageSuccCount = True"
| "is_bookkeeping ev = False"

definition bookkeeping :: "event list \<Rightarrow> event list" where
  "bookkeeping tr = filter is_bookkeeping tr"

fun is_Log_Error :: "event \<Rightarrow> bool" where
  "is_Log_Error (Log_Error kind url detail) = True"
| "is_Log_Error ev = False"

fun is_recover :: "event \<Rightarrow> bool" where
  "is_recover (recover_returns p) = True"
| "is_recover ev = False"

fun is_Parse :: "event \<Rightarrow> bool" where
  "is_Parse (Context_Parse rule) = True"
| "is_Parse ev = False"

fun is_Collect :: "event \<Rightarrow> bool" where
  "is_Collect (Pipeline_CollectData item) = True"
| "is_Collect (Pipeline_CollectFile f) = True"
| "is_Collect ev = False"

text \<open>
  The three terminal outcomes of a request. Success: the history records the request
  as done and the success counter is incremented, and nothing else is booked. Failure:
  the history records a failed attempt, the failure counter is incremented exactly when
  \<^verbatim>\<open>DoHistory\<close> returned true, and nothing else is booked. Cancellation: the last
  event is \<^verbatim>\<open>recover()\<close> returning the string \<^verbatim>\<open>spider.ACTIVE_STOP\<close>, nothing is booked
  and no error is logged.
\<close>

definition success_recorded :: "request \<Rightarrow> event list \<Rightarrow> bool" where
  "success_recorded req tr =
     (bookkeeping tr = [Spider_DoHistory req True, cache_PageSuccCount])"

definition failure_recorded :: "env \<Rightarrow> request \<Rightarrow> event list \<Rightarrow> bool" where
  "failure_recorded e req tr =
     (bookkeeping tr =
        Spider_DoHistory req False # (if DoHistory e req False then [cache_PageFailCount] else []))"

definition cancellation_swallowed :: "env \<Rightarrow> event list \<Rightarrow> bool" where
  "cancellation_swallowed e tr =
     (tr \<noteq> [] \<and> last tr = recover_returns (PString (ACTIVE_STOP e))
      \<and> bookkeeping tr = [] \<and> filter is_Log_Error tr = [])"

subsection \<open>\<^verbatim>\<open>Run\<close>: the goroutines of one engine\<close>

text \<open>
  \<^verbatim>\<open>Run\<close> starts the pipeline, starts a goroutine that executes \<^verbatim>\<open>run\<close> and then
  closes the channel \<^verbatim>\<open>c\<close>, starts the spider, receives from \<^verbatim>\<open>c\<close> and stops the
  pipeline. The state of the main goroutine is the statement it executes next.
\<close>

datatype mainstate =
    Main_PipelineStart
  | Main_go
  | Main_SpiderStart
  | Main_recv
  | Main_PipelineStop
  | Main_returned

text \<open>
  The goroutine of the dispatch loop: not started yet; about to begin iteration \<open>i\<close>;
  inside iteration \<open>i\<close> with the events it has still to perform and the way the
  iteration ends; at \<^verbatim>\<open>self.Spider.Defer()\<close>; at \<^verbatim>\<open>close(c)\<close>; finished; or stopped
  by a panic of the delay.
\<close>

datatype loopstate =
    Loop_idle
  | Loop_iterate nat
  | Loop_exec "event list" flow nat
  | Loop_Defer
  | Loop_close
  | Loop_done
  | Loop_panicked payload

text \<open>
  The whole engine: the two goroutines, for every task started by the loop the events
  it has still to perform (a task ends without a panic, see \<open>task_no_panic\<close>), whether
  the channel is closed, and the events so far, of all goroutines, in the order in which
  they happened.
\<close>

record system =
  main :: mainstate
  loop :: loopstate
  tasks :: "event list list"
  closed :: bool
  trace :: "event list"

definition start :: system where
  "start = \<lparr>main = Main_PipelineStart, loop = Loop_idle, tasks = [], closed = False,
            trace = []\<rparr>"

text \<open>A receive from \<^verbatim>\<open>c\<close> blocks until the channel is closed: nothing is ever sent.\<close>

definition step_main :: "system \<Rightarrow> system option" where
  "step_main s =
     (case main s of
        Main_PipelineStart \<Rightarrow>
          Some (s\<lparr>main := Main_go, trace := trace s @ [Pipeline_Start]\<rparr>)
      | Main_go \<Rightarrow>
          Some (s\<lparr>main := Main_SpiderStart, loop := Loop_iterate 0,
                  trace := trace s @ [go_run]\<rparr>)
      | Main_SpiderStart \<Rightarrow>
          Some (s\<lparr>main := Main_recv, trace := trace s @ [Spider_Start]\<rparr>)
      | Main_recv \<Rightarrow>
          if closed s
          then Some (s\<lparr>main := Main_PipelineStop, trace := trace s @ [chan_recv]\<rparr>)
          else None
      | Main_PipelineStop \<Rightarrow>
          Some (s\<lparr>main := Main_returned, trace := trace s @ [Pipeline_Stop]\<rparr>)
      | Main_returned \<Rightarrow> None)"

text \<open>The \<^verbatim>\<open>go\<close> statement of the loop starts a task; no other event does.\<close>

fun spawned :: "env \<Rightarrow> event \<Rightarrow> event list list" where
  "spawned e (go_Process req) = [fst (task e req)]"
| "spawned e ev = []"

fun after_iteration :: "flow \<Rightarrow> nat \<Rightarrow> loopstate" where
  "after_iteration Continue i = Loop_iterate (Suc i)"
| "after_iteration Break i = Loop_Defer"
| "after_iteration (Panicked p) i = Loop_panicked p"

text \<open>
  Modelled from the spec: \<^verbatim>\<open>Spider.Defer\<close> is not part of this file. The specification
  calls it the await-drain operation, which blocks until all previously launched
  concurrent tasks have completed their guaranteed slot-release action; so the step at
  \<open>Loop_Defer\<close> is possible only when no task has an event left.
\<close>

definition step_loop :: "crawler \<Rightarrow> env \<Rightarrow> system \<Rightarrow> system option" where
  "step_loop self e s =
     (case loop s of
        Loop_idle \<Rightarrow> None
      | Loop_iterate i \<Rightarrow>
          (let (evs, fl) = iteration self e i in Some (s\<lparr>loop := Loop_exec evs fl i\<rparr>))
      | Loop_exec evs fl i \<Rightarrow>
          (case evs of
             [] \<Rightarrow> Some (s\<lparr>loop := after_iteration fl i\<rparr>)
           | ev # rest \<Rightarrow>
               Some (s\<lparr>loop := Loop_exec rest fl i, tasks := tasks s @ spawned e ev,
                       trace := trace s @ [ev]\<rparr>))
      | Loop_Defer \<Rightarrow>
          if list_all (\<lambda>t. t = []) (tasks s)
          then Some (s\<lparr>loop := Loop_close, trace := trace s @ [Spider_Defer]\<rparr>)
          else None
      | Loop_close \<Rightarrow>
          Some (s\<lparr>loop := Loop_done, closed := True, trace := trace s @ [chan_close]\<rparr>)
      | Loop_done \<Rightarrow> None
      | Loop_panicked p \<Rightarrow> None)"

definition step_task :: "nat \<Rightarrow> system \<Rightarrow> system option" where
  "step_task k s =
     (if k < length (tasks s)
      then (case tasks s ! k of
              [] \<Rightarrow> None
            | ev # rest \<Rightarrow> Some (s\<lparr>tasks := (tasks s)[k := rest], trace := trace s @ [ev]\<rparr>))
      else None)"

text \<open>
  The scheduler is the list of goroutines in the order in which they take their steps.
  A schedule that picks a goroutine which is blocked or has ended is none
  (\<open>None\<close>); every interleaving of the goroutines is some schedule.
\<close>

datatype thread = Main | Loop | Task nat

fun step :: "crawler \<Rightarrow> env \<Rightarrow> thread \<Rightarrow> system \<Rightarrow> system option" where
  "step self e Main s = step_main s"
| "step self e Loop s = step_loop self e s"
| "step self e (Task k) s = step_task k s"

fun exec :: "crawler \<Rightarrow> env \<Rightarrow> thread list \<Rightarrow> system \<Rightarrow> system option" where
  "exec self e [] s = Some s"
| "exec self e (t # ts) s =
     (case step self e t s of
        None \<Rightarrow> None
      | Some s' \<Rightarrow> exec self e ts s')"

definition Run :: "crawler \<Rightarrow> env \<Rightarrow> thread list \<Rightarrow> system option" where
  "Run self e sched = exec self e sched start"

text \<open>The events of \<^verbatim>\<open>Run\<close>'s own goroutine, and those of the shutdown.\<close>

fun is_Run_event :: "event \<Rightarrow> bool" where
  "is_Run_event Pipeline_Start = True"
| "is_Run_event go_run = True"
| "is_Run_event Spider_Start = True"
| "is_Run_event chan_recv = True"
| "is_Run_event Pipeline_Stop = True"
| "is_Run_event ev = False"

fun is_shutdown :: "event \<Rightarrow> bool" where
  "is_shutdown Spider_Defer = True"
| "is_shutdown chan_close = True"
| "is_shutdown chan_recv = True"
| "is_shutdown Pipeline_Stop = True"
| "is_shutdown ev = False"

fun is_slot :: "event \<Rightarrow> bool" where
  "is_slot Spider_RequestUse = True"
| "is_slot Spider_RequestFree = True"
| "is_slot (go_Process req) = True"
| "is_slot ev = False"

subsection \<open>Invariants of the goroutines\<close>

text \<open>
  What the loop has still to do in the current iteration; the events that the main
  goroutine has performed when it is in a given state; and the events of the shutdown
  that have happened, given the states of the loop and of the main goroutine.
\<close>

fun pending :: "loopstate \<Rightarrow> event list" where
  "pending (Loop_exec evs fl i) = evs"
| "pending l = []"

fun main_done :: "mainstate \<Rightarrow> event list" where
  "main_done Main_PipelineStart = []"
| "main_done Main_go = [Pipeline_Start]"
| "main_done Main_SpiderStart = [Pipeline_Start, go_run]"
| "main_done Main_recv = [Pipeline_Start, go_run, Spider_Start]"
| "main_done Main_PipelineStop = [Pipeline_Start, go_run, Spider_Start, chan_recv]"
| "main_done Main_returned = [Pipeline_Start, go_run, Spider_Start, chan_recv, Pipeline_Stop]"

fun shutdown_done :: "loopstate \<Rightarrow> mainstate \<Rightarrow> event list" where
  "shutdown_done Loop_close m = [Spider_Defer]"
| "shutdown_done Loop_done Main_PipelineStop = [Spider_Defer, chan_close, chan_recv]"
| "shutdown_done Loop_done Main_returned =
     [Spider_Defer, chan_close, chan_recv, Pipeline_Stop]"
| "shutdown_done Loop_done m = [Spider_Defer, chan_close]"
| "shutdown_done l m = []"

fun started :: "mainstate \<Rightarrow> bool" where
  "started Main_PipelineStart = False"
| "started Main_go = False"
| "started m = True"

fun received :: "mainstate \<Rightarrow> bool" where
  "received Main_PipelineStop = True"
| "received Main_returned = True"
| "received m = False"

fun drained :: "loopstate \<Rightarrow> bool" where
  "drained Loop_close = True"
| "drained Loop_done = True"
| "drained l = False"

fun begins :: "event list \<Rightarrow> bool" where
  "begins (Pipeline_Start # go_run # rest) = True"
| "begins tr = False"

definition quiet :: "event \<Rightarrow> bool" where
  "quiet ev = (\<not> is_Run_event ev \<and> \<not> is_shutdown ev)"

text \<open>
  The invariant of the lifecycle: the main goroutine's events are those of its state,
  in order; so are the events of the shutdown; the loop and the tasks perform none of
  these; the channel is closed exactly when the loop's goroutine is done; once
  \<^verbatim>\<open>Defer\<close> has returned every task has ended; nothing runs before the \<^verbatim>\<open>go\<close>
  statement; the receive needs the closed channel; and \<^verbatim>\<open>Pipeline.Stop\<close> is the last
  event of all.
\<close>

definition lifecycle_inv :: "system \<Rightarrow> bool" where
  "lifecycle_inv s =
     (filter is_Run_event (trace s) = main_done (main s)
      \<and> filter is_shutdown (trace s) = shutdown_done (loop s) (main s)
      \<and> list_all quiet (pending (loop s))
      \<and> list_all (list_all quiet) (tasks s)
      \<and> closed s = (loop s = Loop_done)
      \<and> (drained (loop s) \<longrightarrow> list_all (\<lambda>t. t = []) (tasks s))
      \<and> (\<not> started (main s) \<longrightarrow>
            loop s = Loop_idle \<and> tasks s = [] \<and> trace s = main_done (main s))
      \<and> (started (main s) \<longrightarrow> begins (trace s))
      \<and> (received (main s) \<longrightarrow> closed s)
      \<and> (main s = Main_returned \<longrightarrow> trace s \<noteq> [] \<and> last (trace s) = Pipeline_Stop))"

text \<open>
  Slots. Among the events that the loop has still to do in its iteration, those about
  slots are none, or an acquire followed by the start of a task, or the start of a task
  whose slot is already acquired; \<open>acquired\<close> counts the slots that are acquired and not
  yet handed to a task. A task that has not ended has exactly one slot event left, the
  release, and it is its last event.
\<close>

fun acquired :: "event list \<Rightarrow> nat option" where
  "acquired [] = Some 0"
| "acquired [Spider_RequestUse, go_Process req] = Some 0"
| "acquired [go_Process req] = Some 1"
| "acquired evs = None"

definition releases :: "event list \<Rightarrow> bool" where
  "releases t = (t = [] \<or> (filter is_slot t = [Spider_RequestFree] \<and> last t = Spider_RequestFree))"

text \<open>
  The invariant of the slots: the acquires so far are one per task started plus the
  one the loop may hold for the task it is about to start; the releases so far are one
  per task ended; and every task still running will release.
\<close>

definition slot_inv :: "system \<Rightarrow> bool" where
  "slot_inv s =
     (acquired (filter is_slot (pending (loop s)))
        = Some (count_list (trace s) Spider_RequestUse - length (tasks s))
      \<and> length (tasks s) \<le> count_list (trace s) Spider_RequestUse
      \<and> count_list (trace s) Spider_RequestFree = length (filter (\<lambda>t. t = []) (tasks s))
      \<and> list_all releases (tasks s))"

subsection \<open>Example requests and collaborators\<close>

text \<open>
  Concrete inputs on which the theorems below are evaluated: one request; a context
  whose download failed, one whose parse panics with the stop marker, one that parses
  and yields one item, one whose parse panics with \<^verbatim>\<open>nil\<close> and one whose parse panics
  with a runtime error; and the collaborators around them.
\<close>

definition req1 :: request where
  "req1 = \<lparr>Url = ''http://example.org/a'', RuleName = ''list''\<rparr>"

definition ctx_error :: "context" where
  "ctx_error = \<lparr>GetError = Some ''timeout'', Parse = (\<lambda>rule. Returns),
                PullItems = [], PullFiles = []\<rparr>"

definition ctx_stop :: "context" where
  "ctx_stop = \<lparr>GetError = None, Parse = (\<lambda>rule. Panics (PString ''stop'')),
               PullItems = [''item''], PullFiles = []\<rparr>"

definition ctx_ok :: "context" where
  "ctx_ok = \<lparr>GetError = None, Parse = (\<lambda>rule. Returns),
             PullItems = [''item''], PullFiles = []\<rparr>"

definition ctx_nil :: "context" where
  "ctx_nil = \<lparr>GetError = None, Parse = (\<lambda>rule. Panics PNil),
              PullItems = [''item''], PullFiles = []\<rparr>"

definition ctx_fault :: "context" where
  "ctx_fault = \<lparr>GetError = None,
                Parse = (\<lambda>rule. Panics (PNonString ''nil pointer dereference'')),
                PullItems = [''item''], PullFiles = []\<rparr>"

definition env_error :: env where
  "env_error =
     \<lparr>ACTIVE_STOP = ''stop'', Download = (\<lambda>req. ctx_error), DoHistory = (\<lambda>req ok. True),
      RequestPull = (\<lambda>i. None), CanStop = (\<lambda>i. True), Int63 = (\<lambda>i. 0)\<rparr>"

definition env_stop :: env where
  "env_stop =
     \<lparr>ACTIVE_STOP = ''stop'', Download = (\<lambda>req. ctx_stop), DoHistory = (\<lambda>req ok. True),
      RequestPull = (\<lambda>i. None), CanStop = (\<lambda>i. True), Int63 = (\<lambda>i. 0)\<rparr>"

definition env_nil :: env where
  "env_nil =
     \<lparr>ACTIVE_STOP = ''stop'', Download = (\<lambda>req. ctx_nil), DoHistory = (\<lambda>req ok. True),
      RequestPull = (\<lambda>i. None), CanStop = (\<lambda>i. True), Int63 = (\<lambda>i. 0)\<rparr>"

definition env_fault :: env where
  "env_fault =
     \<lparr>ACTIVE_STOP = ''stop'', Download = (\<lambda>req. ctx_fault), DoHistory = (\<lambda>req ok. True),
      RequestPull = (\<lambda>i. None), CanStop = (\<lambda>i. True), Int63 = (\<lambda>i. 0)\<rparr>"

text \<open>
  A source that has nothing at the first pull and cannot stop yet, hands out one
  request at the second pull, and is empty and done from the third pull on.
\<close>

definition env_transient :: env where
  "env_transient =
     \<lparr>ACTIVE_STOP = ''stop'', Download = (\<lambda>req. ctx_ok), DoHistory = (\<lambda>req ok. False),
      RequestPull = (\<lambda>i. if i = 1 then Some req1 else None),
      CanStop = (\<lambda>i. 2 \<le> i), Int63 = (\<lambda>i. 0)\<rparr>"

text \<open>
  A schedule for \<open>env_transient\<close> that interleaves the main goroutine, the loop and
  the one task, and lets each of them run to its end.
\<close>

definition schedule1 :: "thread list" where
  "schedule1 =
     [Main, Main, Loop, Loop, Main, Loop, Loop, Loop, Loop, Loop, Loop, Loop, Task 0, Loop,
      Task 0, Loop, Loop, Loop, Loop, Loop, Task 0, Task 0, Task 0, Task 0, Task 0, Task 0,
      Task 0, Loop, Loop, Main, Main]"

section \<open>The rate limiter\<close>

lemma sint_half:
  fixes P :: int64
  shows "sint (word_of_int (sint P sdiv 2) :: int64) = sint P sdiv 2"
proof -
  have "- (2 ^ 63) \<le> sint P" "sint P < 2 ^ 63"
    using sint_ge [of P] sint_lt [of P] by simp_all
  then have "- (2 ^ 63) \<le> sint P sdiv 2 \<and> sint P sdiv 2 < 2 ^ 63"
    by (auto simp add: signed_divide_int_def sgn_if abs_if)
  then show ?thesis
    by (simp add: sint_sbintrunc' signed_take_bit_int_eq_self)
qed

lemma Init_base: "sint (fst (pause (Init self P))) = sint P sdiv 2"
  by (simp add: Init_def Let_def sint_half)

lemma Init_spread:
  "snd (pause (Init self P)) =
     (if 0 < sint P sdiv 2 then fst (pause (Init self P)) * 3 else 1)"
  by (simp add: Init_def Let_def word_sless_alt sint_half)

lemma sint_times3:
  fixes b :: int64
  assumes "0 \<le> sint b" "sint b \<le> 3074457345618258602"
  shows "sint (b * 3) = sint b * 3"
proof -
  have "sint (3 :: int64) = 3" by simp
  then have "sint (b * 3) = signed_take_bit 63 (sint b * 3)"
    by (simp add: sint_word_mult)
  also have "\<dots> = sint b * 3"
    using assms by (intro signed_take_bit_int_eq_self) simp_all
  finally show ?thesis .
qed

lemma Init_spread_sint:
  assumes "sint P \<le> 6148914691236517205"
  shows "sint (snd (pause (Init self P))) =
           (if 0 < sint P sdiv 2 then (sint P sdiv 2) * 3 else 1)"
proof (cases "0 < sint P sdiv 2")
  case True
  have "sint P sdiv 2 \<le> 3074457345618258602"
    using assms True by (auto simp add: signed_divide_int_def sgn_if abs_if split: if_splits)
  with True have "sint (fst (pause (Init self P)) * 3) = sint (fst (pause (Init self P))) * 3"
    by (intro sint_times3) (simp_all add: Init_base)
  with True show ?thesis by (simp add: Init_spread Init_base)
next
  case False
  then show ?thesis by (simp add: Init_spread)
qed

lemma Int63n_range:
  assumes "0 < sint n"
  shows "\<exists>r. Int63n n raw = Inr r \<and> 0 \<le> sint r \<and> sint r < sint n
           \<and> sint r = int (raw mod nat (sint n))"
proof -
  let ?k = "raw mod nat (sint n)"
  have lt: "int ?k < sint n" using assms by (simp add: zless_nat_eq_int_zless [symmetric])
  have "sint n < 2 ^ 63" using sint_lt [of n] by simp
  with lt have "int ?k < 2 ^ 63" by linarith
  then have "signed_take_bit 63 (int ?k) = int ?k"
    by (intro signed_take_bit_int_eq_self) simp_all
  moreover have "sint (word_of_int (int ?k) :: int64) = signed_take_bit 63 (int ?k)"
    by (simp only: sint_sbintrunc') simp
  ultimately have "sint (word_of_nat ?k :: int64) = int ?k"
    by (simp only: of_int_of_nat_eq)
  moreover have "\<not> n \<le>s 0" using assms by (simp add: word_sle_eq)
  ultimately show ?thesis using lt by (simp add: Int63n_def del: of_nat_mod)
qed

lemma sleeptime_range:
  assumes "0 < sint (snd (pause c))"
    and "- (2 ^ 63) \<le> sint (fst (pause c))"
    and "sint (fst (pause c)) + sint (snd (pause c)) \<le> 2 ^ 63"
  shows "\<exists>d. sleeptime c raw = Inr d \<and> sint (fst (pause c)) \<le> sint d
           \<and> sint d < sint (fst (pause c)) + sint (snd (pause c))"
proof -
  from Int63n_range [OF assms(1), of raw] obtain r where
    r: "Int63n (snd (pause c)) raw = Inr r" "0 \<le> sint r" "sint r < sint (snd (pause c))"
    by blast
  have "sint (fst (pause c) + r) = signed_take_bit 63 (sint (fst (pause c)) + sint r)"
    by (simp add: sint_word_add)
  also have "\<dots> = sint (fst (pause c)) + sint r"
    using r assms by (intro signed_take_bit_int_eq_self) simp_all
  finally show ?thesis using r by (simp add: sleeptime_def)
qed

text \<open>
  C2, as amended. For every configured pause value \<open>P\<close> with \<open>0 \<le> P \<le> 2^62 + 1\<close>,
  \<^verbatim>\<open>Init\<close> stores \<open>base = P / 2\<close> and \<open>spread = base * 3\<close> if \<open>base > 0\<close>, else
  \<open>spread = 1\<close>, and every delay that \<^verbatim>\<open>sleep\<close> samples lies in
  \<open>[base, base + spread)\<close>. The bound keeps \<open>base + spread\<close> within 64 bits.
\<close>

theorem Init_pause_and_delay_range:
  assumes "0 \<le> sint P" and "sint P \<le> 4611686018427387905"
  shows "sint (fst (pause (Init self P))) = sint P sdiv 2
       \<and> sint (snd (pause (Init self P))) =
           (if 0 < sint (fst (pause (Init self P)))
            then sint (fst (pause (Init self P))) * 3 else 1)
       \<and> (\<exists>d. sleeptime (Init self P) raw = Inr d
             \<and> sint (fst (pause (Init self P))) \<le> sint d
             \<and> sint d < sint (fst (pause (Init self P))) + sint (snd (pause (Init self P))))"
proof -
  let ?c = "Init self P"
  have b: "sint (fst (pause ?c)) = sint P sdiv 2" by (rule Init_base)
  have s: "sint (snd (pause ?c)) = (if 0 < sint P sdiv 2 then (sint P sdiv 2) * 3 else 1)"
    using assms by (intro Init_spread_sint) simp
  have h: "0 \<le> sint P sdiv 2" "sint P sdiv 2 \<le> 2305843009213693952"
    using assms by (auto simp add: signed_divide_int_def sgn_if abs_if split: if_splits)
  have "\<exists>d. sleeptime ?c raw = Inr d \<and> sint (fst (pause ?c)) \<le> sint d
           \<and> sint d < sint (fst (pause ?c)) + sint (snd (pause ?c))"
    using h by (intro sleeptime_range) (simp_all add: b s)
  then show ?thesis using b s by simp
qed

text \<open>
  The example of the specification: \<open>P = 1000\<close> gives \<open>base = 500\<close>, \<open>spread = 1500\<close>,
  and the raw draw 4499 gives the delay \<open>500 + 4499 mod 1500 = 1999\<close>.
\<close>

theorem Init_pause_and_delay_range_witness:
  "0 \<le> sint (1000 :: int64) \<and> sint (1000 :: int64) \<le> 4611686018427387905
   \<and> pause (Init (New 7) 1000) = (500, 1500)
   \<and> sleeptime (Init (New 7) 1000) 4499 = Inr 1999"
  using Init_pause_and_delay_range [of 1000 "New 7" 4499]
  by (simp add: Init_def New_def sleeptime_def Int63n_def Let_def signed_divide_int_def
      word_sle_eq word_sless_alt)

text \<open>
  C2 as stated fails for a large pause value: with \<open>P = 2^62 + 2\<close> the base is
  \<open>2^61 + 1\<close>, the spread is three times that, and the largest draw makes the 64-bit
  sum wrap around to a negative delay, below the base.
\<close>

theorem delay_range_counterexample:
  "0 \<le> sint (4611686018427387906 :: int64)
   \<and> pause (Init (New 7) 4611686018427387906) = (2305843009213693953, 6917529027641081859)
   \<and> sleeptime (Init (New 7) 4611686018427387906) 6917529027641081858
       = Inr (- 9223372036854775805)
   \<and> sint (- 9223372036854775805 :: int64) < sint (2305843009213693953 :: int64)"
  by (simp add: Init_def New_def sleeptime_def Int63n_def Let_def signed_divide_int_def
      word_sle_eq word_sless_alt)

text \<open>
  C10, as amended. For every configured pause value \<open>P\<close> up to
  \<open>6148914691236517205\<close> (negative values included), the spread stored by \<^verbatim>\<open>Init\<close> is
  at least 1, and the random draw of \<^verbatim>\<open>sleep\<close> does not panic and lies in
  \<open>[0, spread)\<close>. Up to that bound \<open>(P / 2) * 3\<close> fits in 64 bits.
\<close>

theorem Init_spread_at_least_one:
  assumes "sint P \<le> 6148914691236517205"
  shows "1 \<le> sint (snd (pause (Init self P)))
       \<and> (\<exists>r. Int63n (snd (pause (Init self P))) raw = Inr r
             \<and> 0 \<le> sint r \<and> sint r < sint (snd (pause (Init self P))))"
proof -
  have s: "sint (snd (pause (Init self P))) =
           (if 0 < sint P sdiv 2 then (sint P sdiv 2) * 3 else 1)"
    using assms by (rule Init_spread_sint)
  then have pos: "1 \<le> sint (snd (pause (Init self P)))" by (simp split: if_splits)
  then have "0 < sint (snd (pause (Init self P)))" by linarith
  from Int63n_range [OF this, of raw] pos show ?thesis by blast
qed

theorem Init_spread_at_least_one_witness:
  "sint (0 :: int64) \<le> 6148914691236517205
   \<and> pause (Init (New 7) 0) = (0, 1)
   \<and> Int63n (snd (pause (Init (New 7) 0))) 12345 = Inr 0"
  using Init_spread_at_least_one [of 0 "New 7" 12345]
  by (simp add: Init_def New_def Int63n_def Let_def word_sle_eq word_sless_alt)

text \<open>
  C10 as stated fails at the next pause value: the product \<open>(P / 2) * 3\<close> wraps around
  to a negative spread, and \<^verbatim>\<open>rand.Int63n\<close> panics.
\<close>

theorem spread_counterexample:
  "sint (snd (pause (Init (New 7) 6148914691236517206))) = - 9223372036854775807
   \<and> Int63n (snd (pause (Init (New 7) 6148914691236517206))) 12345
       = Inl (PString ''invalid argument to Int63n'')"
  by (simp add: Init_def New_def Int63n_def Let_def signed_divide_int_def
      word_sle_eq word_sless_alt)

text \<open>
  Up to the pause value at which the product wraps, \<^verbatim>\<open>Init\<close> leaves a positive
  spread.
\<close>

lemma Init_spread_positive:
  assumes "sint P \<le> 6148914691236517205"
  shows "0 <s snd (pause (Init c P))"
proof -
  have "sint (snd (pause (Init c P))) =
           (if 0 < sint P sdiv 2 then (sint P sdiv 2) * 3 else 1)"
    using assms by (rule Init_spread_sint)
  then have "0 < sint (snd (pause (Init c P)))" by (simp split: if_splits)
  then show ?thesis by (simp add: word_sless_alt)
qed

text \<open>
  An engine that was created by \<^verbatim>\<open>New\<close> and never initialised has the spread 0, and
  its delay panics.
\<close>

lemma sleep_uninitialised:
  "sleep (New i) raw = Inl (PString ''invalid argument to Int63n'')"
  by (simp add: sleep_def sleeptime_def Int63n_def New_def word_sle_eq)

section \<open>The request processor\<close>

lemma bookkeeping_Nil [simp]: "bookkeeping [] = []"
  by (simp add: bookkeeping_def)

lemma bookkeeping_Cons [simp]:
  "bookkeeping (x # xs) = (if is_bookkeeping x then x # bookkeeping xs else bookkeeping xs)"
  by (simp add: bookkeeping_def)

lemma bookkeeping_append [simp]: "bookkeeping (xs @ ys) = bookkeeping xs @ bookkeeping ys"
  by (simp add: bookkeeping_def)

lemma bookkeeping_Collect [simp]:
  "bookkeeping (map Pipeline_CollectData xs) = []"
  "bookkeeping (map Pipeline_CollectFile xs) = []"
  by (induction xs) simp_all

lemma bookkeeping_record_failure [simp]:
  "bookkeeping (record_failure e req) =
     Spider_DoHistory req False # (if DoHistory e req False then [cache_PageFailCount] else [])"
  by (simp add: record_failure_def)

lemma filter_Collect [simp]:
  "filter is_Log_Error (map Pipeline_CollectData xs) = []"
  "filter is_Log_Error (map Pipeline_CollectFile xs) = []"
  "filter is_recover (map Pipeline_CollectData xs) = []"
  "filter is_recover (map Pipeline_CollectFile xs) = []"
  by (induction xs) simp_all

lemma count_PutContext_Collect [simp]:
  "count_list (map Pipeline_CollectData xs) (PutContext req) = 0"
  "count_list (map Pipeline_CollectFile xs) (PutContext req) = 0"
  by (induction xs) simp_all

text \<open>The three paths through \<^verbatim>\<open>Process\<close>.\<close>

lemma Process_error:
  assumes "GetError (Download e req) = Some err"
  shows "Process e req =
           ([Downloader_Download req] @ record_failure e req
            @ [Log_Error ''download'' (Url req) err], None)"
  using assms by (simp add: Process_def Let_def)

lemma Process_returns:
  assumes "GetError (Download e req) = None"
    and "Parse (Download e req) (RuleName req) = Returns"
  shows "Process e req =
           ([Downloader_Download req, Context_Parse (RuleName req),
             Spider_DoHistory req True, cache_PageSuccCount, Log_Informational (Url req)]
            @ map Pipeline_CollectData (PullItems (Download e req))
            @ map Pipeline_CollectFile (PullFiles (Download e req))
            @ [PutContext req], None)"
  using assms by (simp add: Process_def Let_def guarded_def deferred_def)

lemma Process_panics:
  assumes "GetError (Download e req) = None"
    and "Parse (Download e req) (RuleName req) = Panics p"
  shows "Process e req =
           ([Downloader_Download req, Context_Parse (RuleName req)]
            @ fst (deferred e req (Some p)), None)"
  using assms by (simp add: Process_def Let_def guarded_def deferred_def)

text \<open>
  C1, as amended. For every request whose parsing does not panic with the payload
  \<^verbatim>\<open>nil\<close> (the stop marker being a non-empty string), exactly one of the three
  terminal outcomes occurs: success recorded, failure recorded, or cancellation
  swallowed. Success is the outcome exactly when the download reported no error and
  \<^verbatim>\<open>Parse\<close> returned, and cancellation exactly when the download reported no error and
  \<^verbatim>\<open>Parse\<close> panicked with the string \<^verbatim>\<open>spider.ACTIVE_STOP\<close>.
\<close>

theorem Process_exactly_one_outcome:
  assumes "ACTIVE_STOP e \<noteq> []"
    and "GetError (Download e req) \<noteq> None
         \<or> Parse (Download e req) (RuleName req) \<noteq> Panics PNil"
  shows "(of_bool (success_recorded req (fst (Process e req)))
          + of_bool (failure_recorded e req (fst (Process e req)))
          + of_bool (cancellation_swallowed e (fst (Process e req))) :: nat) = 1
       \<and> success_recorded req (fst (Process e req))
           = (GetError (Download e req) = None
              \<and> Parse (Download e req) (RuleName req) = Returns)
       \<and> cancellation_swallowed e (fst (Process e req))
           = (GetError (Download e req) = None
              \<and> Parse (Download e req) (RuleName req) = Panics (PString (ACTIVE_STOP e)))"
proof (cases "GetError (Download e req)")
  case (Some err)
  then show ?thesis
    by (simp add: Process_error success_recorded_def failure_recorded_def
        cancellation_swallowed_def)
next
  case None
  show ?thesis
  proof (cases "Parse (Download e req) (RuleName req)")
    case Returns
    with None show ?thesis
      by (simp add: Process_returns success_recorded_def failure_recorded_def
          cancellation_swallowed_def)
  next
    case (Panics p)
    with None assms(2) have nn: "p \<noteq> PNil" by simp
    show ?thesis
    proof (cases p)
      case PNil
      with nn show ?thesis by simp
    next
      case (PString str)
      with None Panics show ?thesis
        by (simp add: Process_panics deferred_def Let_def success_recorded_def
            failure_recorded_def cancellation_swallowed_def)
    next
      case (PNonString v)
      with None Panics assms(1) show ?thesis
        by (simp add: Process_panics deferred_def Let_def success_recorded_def
            failure_recorded_def cancellation_swallowed_def)
    qed
  qed
qed

text \<open>
  A panic with the stop marker is a cancellation and nothing else; a panic with a
  runtime error is a failure and not a cancellation.
\<close>

theorem Process_exactly_one_outcome_witness:
  "ACTIVE_STOP env_stop \<noteq> []
   \<and> Parse (Download env_stop req1) (RuleName req1) = Panics (PString ''stop'')
   \<and> cancellation_swallowed env_stop (fst (Process env_stop req1))
   \<and> \<not> success_recorded req1 (fst (Process env_stop req1))
   \<and> \<not> failure_recorded env_stop req1 (fst (Process env_stop req1))
   \<and> Process env_fault req1 =
       ([Downloader_Download req1, Context_Parse ''list'',
         recover_returns (PNonString ''nil pointer dereference''),
         Spider_DoHistory req1 False, cache_PageFailCount,
         Log_Error ''process'' ''http://example.org/a'' ''nil pointer dereference''], None)
   \<and> failure_recorded env_fault req1 (fst (Process env_fault req1))
   \<and> \<not> cancellation_swallowed env_fault (fst (Process env_fault req1))"
proof -
  have a: "ACTIVE_STOP env_stop \<noteq> []" by (simp add: env_stop_def)
  have b: "Parse (Download env_stop req1) (RuleName req1) = Panics (PString ''stop'')"
    by (simp add: env_stop_def ctx_stop_def)
  have c: "GetError (Download env_stop req1) \<noteq> None
           \<or> Parse (Download env_stop req1) (RuleName req1) \<noteq> Panics PNil"
    by (simp add: b)
  have d: "Process env_fault req1 =
       ([Downloader_Download req1, Context_Parse ''list'',
         recover_returns (PNonString ''nil pointer dereference''),
         Spider_DoHistory req1 False, cache_PageFailCount,
         Log_Error ''process'' ''http://example.org/a'' ''nil pointer dereference''], None)"
    by (simp add: Process_def Let_def guarded_def deferred_def record_failure_def
        env_fault_def ctx_fault_def req1_def)
  have f: "GetError (Download env_stop req1) = None"
    by (simp add: env_stop_def ctx_stop_def)
  from Process_exactly_one_outcome [OF a c] a b d f show ?thesis
    by (simp add: success_recorded_def failure_recorded_def cancellation_swallowed_def
        env_stop_def env_fault_def split: if_splits)
qed

text \<open>
  C1 as stated fails when \<^verbatim>\<open>Parse\<close> panics with \<^verbatim>\<open>nil\<close>: \<^verbatim>\<open>recover()\<close> ends the panic
  and returns \<^verbatim>\<open>nil\<close>, the closure does nothing, and none of the three outcomes
  occurs.
\<close>

theorem nil_panic_counterexample:
  "Process env_nil req1 =
     ([Downloader_Download req1, Context_Parse ''list'', recover_returns PNil], None)
   \<and> bookkeeping (fst (Process env_nil req1)) = []
   \<and> \<not> success_recorded req1 (fst (Process env_nil req1))
   \<and> \<not> failure_recorded env_nil req1 (fst (Process env_nil req1))
   \<and> \<not> cancellation_swallowed env_nil (fst (Process env_nil req1))"
  by (simp add: Process_def Let_def guarded_def deferred_def success_recorded_def
      failure_recorded_def cancellation_swallowed_def env_nil_def ctx_nil_def req1_def)

text \<open>
  C5. When the download reports an error, \<^verbatim>\<open>Process\<close> records a failed attempt with
  the spider, increments the failure counter exactly when \<^verbatim>\<open>DoHistory\<close> returned true,
  logs the failure and returns: nothing is parsed and nothing reaches the pipeline.
\<close>

theorem Process_fetch_error:
  assumes "GetError (Download e req) = Some err"
  shows "Process e req =
           ([Downloader_Download req, Spider_DoHistory req False]
            @ (if DoHistory e req False then [cache_PageFailCount] else [])
            @ [Log_Error ''download'' (Url req) err], None)
       \<and> (cache_PageFailCount \<in> set (fst (Process e req))) = DoHistory e req False
       \<and> filter is_Parse (fst (Process e req)) = []
       \<and> filter is_Collect (fst (Process e req)) = []"
  using assms by (simp add: Process_error record_failure_def)

theorem Process_fetch_error_witness:
  "GetError (Download env_error req1) = Some ''timeout''
   \<and> Process env_error req1 =
       ([Downloader_Download req1, Spider_DoHistory req1 False, cache_PageFailCount,
         Log_Error ''download'' ''http://example.org/a'' ''timeout''], None)"
  using Process_fetch_error [of env_error req1 "''timeout''"]
  by (simp add: env_error_def ctx_error_def req1_def)

text \<open>
  C6. When \<^verbatim>\<open>Parse\<close> panics with the string \<^verbatim>\<open>spider.ACTIVE_STOP\<close>, the handler
  swallows the panic: no history call, no counter, no error log, and nothing escapes
  from \<^verbatim>\<open>Process\<close>; the task ends by freeing its slot as usual.
\<close>

theorem Process_active_stop_swallowed:
  assumes "GetError (Download e req) = None"
    and "Parse (Download e req) (RuleName req) = Panics (PString (ACTIVE_STOP e))"
  shows "Process e req =
           ([Downloader_Download req, Context_Parse (RuleName req),
             recover_returns (PString (ACTIVE_STOP e))], None)
       \<and> task e req =
           ([Log_Debug (Url req), Downloader_Download req, Context_Parse (RuleName req),
             recover_returns (PString (ACTIVE_STOP e)), Spider_RequestFree], None)
       \<and> bookkeeping (fst (Process e req)) = []
       \<and> filter is_Log_Error (fst (Process e req)) = []"
  using assms by (simp add: Process_panics deferred_def task_def FreeOne_def)

theorem Process_active_stop_swallowed_witness:
  "GetError (Download env_stop req1) = None
   \<and> Parse (Download env_stop req1) (RuleName req1) = Panics (PString (ACTIVE_STOP env_stop))
   \<and> Process env_stop req1 =
       ([Downloader_Download req1, Context_Parse ''list'', recover_returns (PString ''stop'')],
        None)"
  using Process_active_stop_swallowed [of env_stop req1]
  by (simp add: env_stop_def ctx_stop_def req1_def)


text \<open>
  C9, as amended. \<^verbatim>\<open>Process\<close> returns the context to the pool exactly when the
  download reported no error and \<^verbatim>\<open>Parse\<close> returned; it does so once, as its last
  action.
\<close>

theorem PutContext_only_on_success:
  "(PutContext req \<in> set (fst (Process e req)))
     = (GetError (Download e req) = None \<and> Parse (Download e req) (RuleName req) = Returns)
   \<and> (if GetError (Download e req) = None \<and> Parse (Download e req) (RuleName req) = Returns
      then last (fst (Process e req)) = PutContext req
         \<and> count_list (fst (Process e req)) (PutContext req) = 1
      else count_list (fst (Process e req)) (PutContext req) = 0)"
proof (cases "GetError (Download e req)")
  case (Some err)
  then show ?thesis by (simp add: Process_error record_failure_def)
next
  case None
  show ?thesis
  proof (cases "Parse (Download e req) (RuleName req)")
    case Returns
    with None show ?thesis by (simp add: Process_returns)
  next
    case (Panics p)
    with None show ?thesis
      by (simp add: Process_panics deferred_def Let_def record_failure_def)
  qed
qed

text \<open>
  C9 as stated fails on a download error, where \<^verbatim>\<open>Process\<close> returns before
  \<^verbatim>\<open>spider.PutContext\<close>, and on a panic of \<^verbatim>\<open>Parse\<close>, which skips it.
\<close>

theorem PutContext_counterexample:
  "Process env_error req1 =
     ([Downloader_Download req1, Spider_DoHistory req1 False, cache_PageFailCount,
       Log_Error ''download'' ''http://example.org/a'' ''timeout''], None)
   \<and> PutContext req1 \<notin> set (fst (Process env_error req1))
   \<and> Process env_stop req1 =
     ([Downloader_Download req1, Context_Parse ''list'', recover_returns (PString ''stop'')],
      None)
   \<and> PutContext req1 \<notin> set (fst (Process env_stop req1))"
  by (simp add: Process_def Let_def record_failure_def guarded_def deferred_def
      env_error_def ctx_error_def env_stop_def ctx_stop_def req1_def)

section \<open>The dispatch loop\<close>

lemma sleep_ok:
  assumes "0 <s snd (pause self)"
  shows "\<exists>d. sleep self raw = Inr [time_Sleep d]"
  using assms
  by (auto simp add: sleep_def sleeptime_def Int63n_def word_sle_eq word_sless_alt
      split: sum.splits)

lemma iteration_Break:
  "(snd (iteration self e i) = Break) = (RequestPull e i = None \<and> CanStop e i)"
  by (auto simp add: iteration_def GetOne_def Let_def split: option.splits sum.splits)

lemma iteration_stop:
  assumes "RequestPull e i = None" and "CanStop e i"
  shows "iteration self e i = ([Spider_RequestPull None, Spider_CanStop True], Break)"
  using assms by (simp add: iteration_def GetOne_def)

lemma iteration_empty_continue:
  assumes "0 <s snd (pause self)" and "RequestPull e i = None" and "\<not> CanStop e i"
  shows "\<exists>d. iteration self e i =
           ([Spider_RequestPull None, Spider_CanStop False, time_Sleep d], Continue)"
proof -
  from sleep_ok [OF assms(1)] obtain d where "sleep self (Int63 e i) = Inr [time_Sleep d]"
    by blast
  with assms(2,3) show ?thesis by (simp add: iteration_def GetOne_def)
qed

lemma iteration_admit:
  assumes "0 <s snd (pause self)" and "RequestPull e i = Some req"
  shows "\<exists>d. iteration self e i =
           ([Spider_RequestPull (Some req), Spider_RequestUse, go_Process req, time_Sleep d],
            Continue)"
proof -
  from sleep_ok [OF assms(1)] obtain d where "sleep self (Int63 e i) = Inr [time_Sleep d]"
    by blast
  with assms(2) show ?thesis by (simp add: iteration_def GetOne_def UseOne_def)
qed

lemma iteration_Continue:
  assumes "0 <s snd (pause self)" and "\<not> (RequestPull e i = None \<and> CanStop e i)"
  shows "snd (iteration self e i) = Continue"
proof (cases "RequestPull e i")
  case None
  with assms iteration_empty_continue [of self e i] show ?thesis by auto
next
  case (Some req)
  with assms iteration_admit [of self e i req] show ?thesis by auto
qed

text \<open>
  With a positive spread the loop is still running after \<open>fuel\<close> iterations exactly
  when none of them found the queue empty and the spider ready to stop.
\<close>

lemma run_None_iff:
  assumes "0 <s snd (pause self)"
  shows "(run self e fuel i = None)
           = (\<forall>k. i \<le> k \<and> k < i + fuel \<longrightarrow> \<not> (RequestPull e k = None \<and> CanStop e k))"
proof (induction fuel arbitrary: i)
  case 0
  then show ?case by auto
next
  case (Suc fuel)
  show ?case
  proof (cases "RequestPull e i = None \<and> CanStop e i")
    case True
    then have "run self e (Suc fuel) i \<noteq> None"
      by (simp add: iteration_stop)
    moreover have "\<not> (\<forall>k. i \<le> k \<and> k < i + Suc fuel \<longrightarrow> \<not> (RequestPull e k = None \<and> CanStop e k))"
      using True by (intro notI) (drule spec [of _ i], simp)
    ultimately show ?thesis by (auto simp del: run.simps)
  next
    case False
    obtain evs where it: "iteration self e i = (evs, Continue)"
      using iteration_Continue [OF assms False] by (cases "iteration self e i") simp
    have "(run self e (Suc fuel) i = None) = (run self e fuel (Suc i) = None)"
      by (simp add: it split: option.splits)
    also have "\<dots> = (\<forall>k. Suc i \<le> k \<and> k < Suc i + fuel \<longrightarrow> \<not> (RequestPull e k = None \<and> CanStop e k))"
      by (rule Suc.IH)
    also have "\<dots> = (\<forall>k. i \<le> k \<and> k < i + Suc fuel \<longrightarrow> \<not> (RequestPull e k = None \<and> CanStop e k))"
    proof (intro iffI allI impI)
      fix k
      assume h: "\<forall>k. Suc i \<le> k \<and> k < Suc i + fuel \<longrightarrow> \<not> (RequestPull e k = None \<and> CanStop e k)"
        and k: "i \<le> k \<and> k < i + Suc fuel"
      show "\<not> (RequestPull e k = None \<and> CanStop e k)"
      proof (cases "k = i")
        case True
        with False show ?thesis by simp
      next
        case ne: False
        with k have "Suc i \<le> k \<and> k < Suc i + fuel" by arith
        with h show ?thesis by blast
      qed
    next
      fix k
      assume h: "\<forall>k. i \<le> k \<and> k < i + Suc fuel \<longrightarrow> \<not> (RequestPull e k = None \<and> CanStop e k)"
        and k: "Suc i \<le> k \<and> k < Suc i + fuel"
      then have "i \<le> k \<and> k < i + Suc fuel" by arith
      with h show "\<not> (RequestPull e k = None \<and> CanStop e k)" by blast
    qed
    finally show ?thesis .
  qed
qed

text \<open>
  Whatever the pause configuration: a loop that has ended either panicked in the
  delay, or ended with an empty pull, a positive answer of \<^verbatim>\<open>CanStop\<close> and \<^verbatim>\<open>Defer\<close>.
\<close>

lemma run_Some_shape:
  assumes "run self e fuel i = Some (tr, escaped)"
  shows "(escaped = None \<and>
           (\<exists>pre k. i \<le> k \<and> k < i + fuel \<and> RequestPull e k = None \<and> CanStop e k
              \<and> tr = pre @ [Spider_RequestPull None, Spider_CanStop True, Spider_Defer]))
         \<or> (\<exists>p. escaped = Some p)"
  using assms
proof (induction fuel arbitrary: i tr)
  case 0
  then show ?case by simp
next
  case (Suc fuel)
  obtain evs fl where it: "iteration self e i = (evs, fl)"
    by (cases "iteration self e i")
  show ?case
  proof (cases fl)
    case Break
    with it have "snd (iteration self e i) = Break" by simp
    then have st: "RequestPull e i = None" "CanStop e i" by (simp_all add: iteration_Break)
    with Suc.prems have "tr = [Spider_RequestPull None, Spider_CanStop True, Spider_Defer]"
      "escaped = None"
      by (simp_all add: iteration_stop)
    with st show ?thesis by (intro disjI1 conjI exI [of _ "[]"] exI [of _ i]) simp_all
  next
    case (Panicked p)
    with it Suc.prems show ?thesis by auto
  next
    case Continue
    with it Suc.prems obtain rest where
      r: "run self e fuel (Suc i) = Some (rest, escaped)" and tr: "tr = evs @ rest"
      by (auto split: option.splits)
    from Suc.IH [OF r] show ?thesis
    proof
      assume "escaped = None \<and>
        (\<exists>pre k. Suc i \<le> k \<and> k < Suc i + fuel \<and> RequestPull e k = None \<and> CanStop e k
           \<and> rest = pre @ [Spider_RequestPull None, Spider_CanStop True, Spider_Defer])"
      then obtain pre k where
        "escaped = None" "Suc i \<le> k" "k < Suc i + fuel" "RequestPull e k = None" "CanStop e k"
        "rest = pre @ [Spider_RequestPull None, Spider_CanStop True, Spider_Defer]"
        by blast
      with tr show ?thesis
        by (intro disjI1 conjI exI [of _ "evs @ pre"] exI [of _ k]) simp_all
    next
      assume "\<exists>p. escaped = Some p"
      then show ?thesis by simp
    qed
  qed
qed

lemma run_no_panic:
  assumes "0 <s snd (pause self)" and "run self e fuel i = Some (tr, escaped)"
  shows "escaped = None"
  using assms(2)
proof (induction fuel arbitrary: i tr)
  case 0
  then show ?case by simp
next
  case (Suc fuel)
  show ?case
  proof (cases "RequestPull e i = None \<and> CanStop e i")
    case True
    with Suc.prems show ?thesis by (simp add: iteration_stop)
  next
    case False
    obtain evs where it: "iteration self e i = (evs, Continue)"
      using iteration_Continue [OF assms(1) False] by (cases "iteration self e i") simp
    with Suc.prems obtain rest where "run self e fuel (Suc i) = Some (rest, escaped)"
      by (auto split: option.splits)
    then show ?thesis by (rule Suc.IH)
  qed
qed

text \<open>
  C3, as amended. For an engine whose stored spread is positive, as \<^verbatim>\<open>Init\<close> leaves
  it for every pause value up to \<open>6148914691236517205\<close>: the loop is still running
  after \<open>fuel\<close> iterations exactly when none of them pulled nothing while \<^verbatim>\<open>CanStop\<close>
  answered true; it never ends in a panic; and an iteration that pulls nothing while
  \<^verbatim>\<open>CanStop\<close> answers false goes on to the delay and to the next pull. For every
  engine, an iteration leaves the loop by \<^verbatim>\<open>break\<close> exactly when it pulled nothing and
  \<^verbatim>\<open>CanStop\<close> answered true, and a loop that has ended without a panic ended with
  such an iteration followed by \<^verbatim>\<open>Defer\<close>.
\<close>

theorem run_exits_only_on_empty_pull_and_CanStop:
  "(snd (iteration self e i) = Break) = (RequestPull e i = None \<and> CanStop e i)
   \<and> (\<forall>tr. run self e fuel 0 = Some (tr, None) \<longrightarrow>
         (\<exists>pre k. k < fuel \<and> RequestPull e k = None \<and> CanStop e k
            \<and> tr = pre @ [Spider_RequestPull None, Spider_CanStop True, Spider_Defer]))
   \<and> (0 <s snd (pause self) \<longrightarrow>
         (run self e fuel 0 = None)
           = (\<forall>k<fuel. \<not> (RequestPull e k = None \<and> CanStop e k))
       \<and> (\<forall>tr escaped. run self e fuel 0 = Some (tr, escaped) \<longrightarrow> escaped = None)
       \<and> (RequestPull e i = None \<and> \<not> CanStop e i \<longrightarrow>
             (\<exists>d. iteration self e i =
                    ([Spider_RequestPull None, Spider_CanStop False, time_Sleep d], Continue))))
   \<and> (sint P \<le> 6148914691236517205 \<longrightarrow> 0 <s snd (pause (Init c P)))"
proof (intro conjI allI impI)
  show "(snd (iteration self e i) = Break) = (RequestPull e i = None \<and> CanStop e i)"
    by (rule iteration_Break)
next
  assume "sint P \<le> 6148914691236517205"
  then show "0 <s snd (pause (Init c P))" by (rule Init_spread_positive)
next
  fix tr
  assume "run self e fuel 0 = Some (tr, None)"
  from run_Some_shape [OF this]
  show "\<exists>pre k. k < fuel \<and> RequestPull e k = None \<and> CanStop e k
          \<and> tr = pre @ [Spider_RequestPull None, Spider_CanStop True, Spider_Defer]"
    by auto
next
  assume "0 <s snd (pause self)"
  from run_None_iff [OF this, of e fuel 0]
  show "(run self e fuel 0 = None)
          = (\<forall>k<fuel. \<not> (RequestPull e k = None \<and> CanStop e k))"
    by simp
next
  fix tr escaped
  assume "0 <s snd (pause self)" and "run self e fuel 0 = Some (tr, escaped)"
  then show "escaped = None" by (rule run_no_panic)
next
  assume "0 <s snd (pause self)" and "RequestPull e i = None \<and> \<not> CanStop e i"
  then show "\<exists>d. iteration self e i =
               ([Spider_RequestPull None, Spider_CanStop False, time_Sleep d], Continue)"
    using iteration_empty_continue [of self e i] by simp
qed

lemma pause_1000: "pause (Init (New 1) 1000) = (500, 1500)"
  by (simp add: Init_def New_def Let_def signed_divide_int_def word_sless_alt)

lemma sleep_1000: "sleep (Init (New 1) 1000) 0 = Inr [time_Sleep 500000000]"
  by (simp add: sleep_def sleeptime_def pause_1000 Int63n_def word_sle_eq Millisecond_def)

lemma iteration_transient:
  "iteration (Init (New 1) 1000) env_transient 0 =
     ([Spider_RequestPull None, Spider_CanStop False, time_Sleep 500000000], Continue)"
  "iteration (Init (New 1) 1000) env_transient (Suc 0) =
     ([Spider_RequestPull (Some req1), Spider_RequestUse, go_Process req1,
       time_Sleep 500000000], Continue)"
  "iteration (Init (New 1) 1000) env_transient (Suc (Suc 0)) =
     ([Spider_RequestPull None, Spider_CanStop True], Break)"
  by (simp_all add: iteration_def GetOne_def UseOne_def sleep_1000 env_transient_def)

text \<open>
  A transient empty pull: the loop is still running after two iterations and ends in
  the third.
\<close>

theorem run_exits_only_on_empty_pull_and_CanStop_witness:
  "0 <s snd (pause (Init (New 1) 1000))
   \<and> run (Init (New 1) 1000) env_transient 2 0 = None
   \<and> run (Init (New 1) 1000) env_transient 3 0 =
       Some ([Spider_RequestPull None, Spider_CanStop False, time_Sleep 500000000,
              Spider_RequestPull (Some req1), Spider_RequestUse, go_Process req1,
              time_Sleep 500000000,
              Spider_RequestPull None, Spider_CanStop True, Spider_Defer], None)"
proof -
  have pos: "0 <s snd (pause (Init (New 1) 1000))"
    by (simp add: pause_1000 word_sless_alt)
  have r3: "run (Init (New 1) 1000) env_transient 3 0 =
       Some ([Spider_RequestPull None, Spider_CanStop False, time_Sleep 500000000,
              Spider_RequestPull (Some req1), Spider_RequestUse, go_Process req1,
              time_Sleep 500000000,
              Spider_RequestPull None, Spider_CanStop True, Spider_Defer], None)"
    by (simp add: numeral_3_eq_3 iteration_transient)
  have "\<forall>k<2. \<not> (RequestPull env_transient k = None \<and> CanStop env_transient k)"
    by (simp add: env_transient_def)
  with pos run_exits_only_on_empty_pull_and_CanStop
         [where self = "Init (New 1) 1000" and e = env_transient and fuel = 2]
  have "run (Init (New 1) 1000) env_transient 2 0 = None" by blast
  with pos r3 show ?thesis by simp
qed

text \<open>
  C3 as stated fails on an engine initialised with the pause value
  \<open>6148914691236517206\<close>, whose stored spread is negative: the first iteration pulls
  nothing, \<^verbatim>\<open>CanStop\<close> answers false, and the loop ends there, in the panic of
  \<^verbatim>\<open>rand.Int63n\<close>, without delay and without another pull.
\<close>

theorem empty_pull_ends_loop_counterexample:
  "RequestPull env_transient 0 = None
   \<and> \<not> CanStop env_transient 0
   \<and> run (Init (New 1) 6148914691236517206) env_transient 1 0 =
       Some ([Spider_RequestPull None, Spider_CanStop False],
             Some (PString ''invalid argument to Int63n''))
   \<and> run (Init (New 1) 6148914691236517206) env_transient 5 0 =
       Some ([Spider_RequestPull None, Spider_CanStop False],
             Some (PString ''invalid argument to Int63n''))"
proof -
  have "sleep (Init (New 1) 6148914691236517206) 0 =
          Inl (PString ''invalid argument to Int63n'')"
    by (simp add: sleep_def sleeptime_def Int63n_def Init_def New_def Let_def
        signed_divide_int_def word_sle_eq word_sless_alt)
  then have "iteration (Init (New 1) 6148914691236517206) env_transient 0 =
          ([Spider_RequestPull None, Spider_CanStop False],
           Panicked (PString ''invalid argument to Int63n''))"
    by (simp add: iteration_def GetOne_def env_transient_def)
  then show ?thesis
    by (simp add: env_transient_def eval_nat_numeral)
qed

section \<open>The lifecycle\<close>

lemma task_no_panic: "snd (task e req) = None"
proof (cases "GetError (Download e req)")
  case (Some err)
  then show ?thesis by (simp add: Process_error task_def)
next
  case None
  then show ?thesis
    by (cases "Parse (Download e req) (RuleName req)")
      (simp_all add: Process_returns Process_panics task_def)
qed

lemma quiet_Process: "list_all quiet (fst (Process e req))"
proof (cases "GetError (Download e req)")
  case (Some err)
  then show ?thesis
    by (simp add: Process_def Let_def record_failure_def quiet_def)
next
  case None
  have "list_all quiet (map Pipeline_CollectData xs)"
    "list_all quiet (map Pipeline_CollectFile xs)" for xs
    by (induction xs) (simp_all add: quiet_def)
  with None show ?thesis
    by (cases "Parse (Download e req) (RuleName req)")
      (simp_all add: Process_def Let_def guarded_def deferred_def record_failure_def quiet_def)
qed

lemma quiet_task: "list_all quiet (fst (task e req))"
  using quiet_Process [of e req]
  by (simp add: task_def FreeOne_def quiet_def case_prod_beta)

lemma begins_append: "begins tr \<Longrightarrow> begins (tr @ xs)"
  by (induction tr rule: begins.induct) simp_all

lemma quiet_spawned: "list_all (list_all quiet) (spawned e ev)"
  by (cases ev) (simp_all add: quiet_task)

lemma quiet_iteration: "list_all quiet (fst (iteration self e i))"
  by (auto simp add: iteration_def GetOne_def UseOne_def sleep_def Let_def quiet_def
      split: option.splits sum.splits)

lemma lifecycle_inv_start: "lifecycle_inv start"
  by (simp add: lifecycle_inv_def start_def)

lemma lifecycle_inv_step_main:
  assumes "lifecycle_inv s" and "step_main s = Some s'"
  shows "lifecycle_inv s'"
  using assms
  by (cases "main s"; cases "loop s")
    (auto simp add: lifecycle_inv_def step_main_def begins_append split: if_splits)


lemma lifecycle_inv_step_loop:
  assumes "lifecycle_inv s" and "step_loop self e s = Some s'"
  shows "lifecycle_inv s'"
proof (cases "loop s")
  case Loop_idle
  with assms show ?thesis by (simp add: step_loop_def)
next
  case (Loop_iterate i)
  obtain evs fl where it: "iteration self e i = (evs, fl)"
    by (cases "iteration self e i")
  with quiet_iteration [of self e i] have "list_all quiet evs" by simp
  with assms Loop_iterate it show ?thesis
    by (cases "main s") (auto simp add: lifecycle_inv_def step_loop_def)
next
  case (Loop_exec evs fl i)
  show ?thesis
  proof (cases evs)
    case Nil
    with assms Loop_exec show ?thesis
      by (cases "main s"; cases fl) (auto simp add: lifecycle_inv_def step_loop_def)
  next
    case (Cons ev rest)
    with assms Loop_exec have q: "quiet ev" by (simp add: lifecycle_inv_def)
    from assms Loop_exec Cons quiet_spawned [of e ev] q show ?thesis
      by (cases "main s")
        (auto simp add: lifecycle_inv_def step_loop_def quiet_def begins_append)
  qed
next
  case Loop_Defer
  with assms show ?thesis
    by (cases "main s")
      (auto simp add: lifecycle_inv_def step_loop_def begins_append split: if_splits)
next
  case Loop_close
  with assms show ?thesis
    by (cases "main s") (auto simp add: lifecycle_inv_def step_loop_def begins_append)
next
  case Loop_done
  with assms show ?thesis by (simp add: step_loop_def)
next
  case (Loop_panicked p)
  with assms show ?thesis by (simp add: step_loop_def)
qed

lemma list_all_update:
  assumes "list_all P xs" and "P x"
  shows "list_all P (xs[k := x])"
  using assms by (auto simp add: list_all_iff dest: set_update_subset_insert [THEN subsetD])

lemma lifecycle_inv_step_task:
  assumes "lifecycle_inv s" and "step_task k s = Some s'"
  shows "lifecycle_inv s'"
proof -
  from assms(2) obtain ev rest where
    k: "k < length (tasks s)" and t: "tasks s ! k = ev # rest"
    and s': "s' = s\<lparr>tasks := (tasks s)[k := rest], trace := trace s @ [ev]\<rparr>"
    by (auto simp add: step_task_def split: if_splits list.splits)
  from assms(1) have "list_all (list_all quiet) (tasks s)" by (simp add: lifecycle_inv_def)
  with k t have "list_all quiet (ev # rest)"
    by (metis list_all_length)
  then have q: "quiet ev" "list_all quiet rest" by simp_all
  have nd: "\<not> drained (loop s)"
  proof
    assume "drained (loop s)"
    with assms(1) have "list_all (\<lambda>t. t = []) (tasks s)" by (simp add: lifecycle_inv_def)
    with k have "tasks s ! k = []" by (simp add: list_all_length)
    with t show False by simp
  qed
  from assms(1) nd have nr: "\<not> received (main s)" "main s \<noteq> Main_returned"
    by (auto simp add: lifecycle_inv_def)
  from assms(1) have "list_all (list_all quiet) ((tasks s)[k := rest])"
    using q(2) by (intro list_all_update) (simp_all add: lifecycle_inv_def)
  with assms(1) q nd nr s' k show ?thesis
    by (cases "main s"; cases "loop s")
      (auto simp add: lifecycle_inv_def quiet_def begins_append)
qed

lemma lifecycle_inv_step:
  assumes "lifecycle_inv s" and "step self e t s = Some s'"
  shows "lifecycle_inv s'"
  using assms
  by (cases t)
    (auto intro: lifecycle_inv_step_main lifecycle_inv_step_loop lifecycle_inv_step_task)

lemma lifecycle_inv_exec:
  assumes "lifecycle_inv s" and "exec self e sched s = Some s'"
  shows "lifecycle_inv s'"
  using assms
proof (induction sched arbitrary: s)
  case Nil
  then show ?case by simp
next
  case (Cons t ts)
  from Cons.prems(2) obtain s1 where
    "step self e t s = Some s1" and "exec self e ts s1 = Some s'"
    by (auto split: option.splits)
  with Cons.IH Cons.prems(1) lifecycle_inv_step show ?case by blast
qed

lemma lifecycle_inv_Run:
  assumes "Run self e sched = Some s"
  shows "lifecycle_inv s"
  using assms lifecycle_inv_exec [OF lifecycle_inv_start] by (simp add: Run_def)


lemma main_done_take:
  "\<exists>n. main_done m = take n [Pipeline_Start, go_run, Spider_Start, chan_recv, Pipeline_Stop]"
proof (cases m)
  case Main_PipelineStart
  then show ?thesis by (intro exI [of _ 0]) simp
next
  case Main_go
  then show ?thesis by (intro exI [of _ 1]) simp
next
  case Main_SpiderStart
  then show ?thesis by (intro exI [of _ 2]) simp
next
  case Main_recv
  then show ?thesis by (intro exI [of _ 3]) simp
next
  case Main_PipelineStop
  then show ?thesis by (intro exI [of _ 4]) simp
next
  case Main_returned
  then show ?thesis by (intro exI [of _ 5]) simp
qed

lemma begins_iff: "begins tr = (\<exists>rest. tr = Pipeline_Start # go_run # rest)"
  by (induction tr rule: begins.induct) simp_all

text \<open>
  An example run: the source of \<open>env_transient\<close>, one task, and a schedule that
  interleaves the three goroutines.
\<close>

lemma task_transient:
  "fst (task env_transient req1) =
     [Log_Debug ''http://example.org/a'', Downloader_Download req1, Context_Parse ''list'',
      Spider_DoHistory req1 True, cache_PageSuccCount,
      Log_Informational ''http://example.org/a'', Pipeline_CollectData ''item'',
      PutContext req1, Spider_RequestFree]"
  by (simp add: task_def Process_def guarded_def deferred_def Let_def FreeOne_def
      env_transient_def ctx_ok_def req1_def)

lemma Run_transient:
  "Run (Init (New 1) 1000) env_transient schedule1
   = Some \<lparr>main = Main_returned, loop = Loop_done, tasks = [[]], closed = True,
           trace =
             [Pipeline_Start, go_run, Spider_RequestPull None, Spider_Start,
              Spider_CanStop False, time_Sleep 500000000, Spider_RequestPull (Some req1),
              Spider_RequestUse, go_Process req1, Log_Debug ''http://example.org/a'',
              time_Sleep 500000000, Downloader_Download req1, Spider_RequestPull None,
              Spider_CanStop True, Context_Parse ''list'', Spider_DoHistory req1 True,
              cache_PageSuccCount, Log_Informational ''http://example.org/a'',
              Pipeline_CollectData ''item'', PutContext req1, Spider_RequestFree,
              Spider_Defer, chan_close, chan_recv, Pipeline_Stop]\<rparr>"
  by (simp add: Run_def schedule1_def start_def step_main_def step_loop_def step_task_def
      iteration_transient task_transient)

text \<open>
  C8. In every interleaving of the goroutines, the events of \<^verbatim>\<open>Run\<close>'s own goroutine
  are a prefix of: start the pipeline, launch the loop, start the spider, receive from
  the channel, stop the pipeline. When \<^verbatim>\<open>Pipeline.Stop\<close> has been called, it was called
  once, as the very last event, after \<^verbatim>\<open>Defer\<close> returned, the channel was closed and the
  receive returned, in this order; the loop's goroutine is done and every task it
  started has ended.
\<close>

theorem Pipeline_Stop_only_after_drain:
  assumes "Run self e sched = Some s"
  shows "(\<exists>n. filter is_Run_event (trace s) =
               take n [Pipeline_Start, go_run, Spider_Start, chan_recv, Pipeline_Stop])
       \<and> (Pipeline_Stop \<in> set (trace s) \<longrightarrow>
             filter is_Run_event (trace s) =
               [Pipeline_Start, go_run, Spider_Start, chan_recv, Pipeline_Stop]
           \<and> filter is_shutdown (trace s) =
               [Spider_Defer, chan_close, chan_recv, Pipeline_Stop]
           \<and> last (trace s) = Pipeline_Stop
           \<and> (\<exists>rest. trace s = Pipeline_Start # go_run # rest)
           \<and> loop s = Loop_done
           \<and> list_all (\<lambda>t. t = []) (tasks s))"
proof -
  from assms have inv: "lifecycle_inv s" by (rule lifecycle_inv_Run)
  then have m: "filter is_Run_event (trace s) = main_done (main s)"
    by (simp add: lifecycle_inv_def)
  have first: "\<exists>n. filter is_Run_event (trace s) =
                 take n [Pipeline_Start, go_run, Spider_Start, chan_recv, Pipeline_Stop]"
    using main_done_take [of "main s"] m by simp
  have second: "filter is_Run_event (trace s) =
               [Pipeline_Start, go_run, Spider_Start, chan_recv, Pipeline_Stop]
           \<and> filter is_shutdown (trace s) =
               [Spider_Defer, chan_close, chan_recv, Pipeline_Stop]
           \<and> last (trace s) = Pipeline_Stop
           \<and> (\<exists>rest. trace s = Pipeline_Start # go_run # rest)
           \<and> loop s = Loop_done
           \<and> list_all (\<lambda>t. t = []) (tasks s)"
    if stop: "Pipeline_Stop \<in> set (trace s)"
  proof -
    from stop have "Pipeline_Stop \<in> set (filter is_Run_event (trace s))" by simp
    with m have "Pipeline_Stop \<in> set (main_done (main s))" by simp
    then have r: "main s = Main_returned" by (cases "main s") simp_all
    with inv have d: "loop s = Loop_done" by (auto simp add: lifecycle_inv_def)
    from inv r d have "begins (trace s)" by (simp add: lifecycle_inv_def)
    then have "\<exists>rest. trace s = Pipeline_Start # go_run # rest" by (simp add: begins_iff)
    with inv r d show ?thesis by (simp add: lifecycle_inv_def)
  qed
  from first second show ?thesis by blast
qed

theorem Pipeline_Stop_only_after_drain_witness:
  "(case Run (Init (New 1) 1000) env_transient schedule1 of
      None \<Rightarrow> False
    | Some s \<Rightarrow>
        Pipeline_Stop \<in> set (trace s)
        \<and> filter is_Run_event (trace s) =
            [Pipeline_Start, go_run, Spider_Start, chan_recv, Pipeline_Stop]
        \<and> filter is_shutdown (trace s) =
            [Spider_Defer, chan_close, chan_recv, Pipeline_Stop]
        \<and> tasks s = [[]])
   \<and> Run (Init (New 1) 1000) env_transient [Main, Main, Main, Main] = None"
proof -
  have blocked: "Run (Init (New 1) 1000) env_transient [Main, Main, Main, Main] = None"
    by (simp add: Run_def start_def step_main_def)
  from Pipeline_Stop_only_after_drain [OF Run_transient] blocked show ?thesis
    by (simp add: Run_transient)
qed

section \<open>Slots\<close>

lemma slots_Process: "filter is_slot (fst (Process e req)) = []"
proof (cases "GetError (Download e req)")
  case (Some err)
  then show ?thesis by (simp add: Process_def Let_def record_failure_def)
next
  case None
  have "filter is_slot (map Pipeline_CollectData xs) = []"
    "filter is_slot (map Pipeline_CollectFile xs) = []" for xs
    by (induction xs) simp_all
  with None show ?thesis
    by (cases "Parse (Download e req) (RuleName req)")
      (simp_all add: Process_def Let_def guarded_def deferred_def record_failure_def)
qed

lemma slots_task:
  "filter is_slot (fst (task e req)) = [Spider_RequestFree]"
  "last (fst (task e req)) = Spider_RequestFree"
  using slots_Process [of e req] by (simp_all add: task_def FreeOne_def case_prod_beta)

lemma releases_task: "releases (fst (task e req))"
  by (simp add: releases_def slots_task)

lemma slots_iteration:
  "filter is_slot (fst (iteration self e i)) =
     (case RequestPull e i of None \<Rightarrow> [] | Some req \<Rightarrow> [Spider_RequestUse, go_Process req])"
  by (auto simp add: iteration_def GetOne_def UseOne_def sleep_def Let_def
      split: option.splits sum.splits)

lemma acquired_iteration: "acquired (filter is_slot (fst (iteration self e i))) = Some 0"
  by (simp add: slots_iteration split: option.splits)

lemma slot_inv_start: "slot_inv start"
  by (simp add: slot_inv_def start_def)

lemma slot_inv_step_main:
  assumes "slot_inv s" and "lifecycle_inv s" and "step_main s = Some s'"
  shows "slot_inv s'"
  using assms
  by (cases "main s")
    (auto simp add: slot_inv_def lifecycle_inv_def step_main_def split: if_splits)


lemma acquired_pop:
  assumes "acquired (filter is_slot (ev # rest)) = Some h"
  shows "acquired (filter is_slot rest) =
           Some (h + (if ev = Spider_RequestUse then 1 else 0) - length (spawned e ev))
       \<and> length (spawned e ev) \<le> h + (if ev = Spider_RequestUse then 1 else 0)
       \<and> ev \<noteq> Spider_RequestFree"
proof (cases "is_slot ev")
  case False
  with assms show ?thesis by (cases ev) simp_all
next
  case True
  then consider "ev = Spider_RequestUse" | "ev = Spider_RequestFree" | r where "ev = go_Process r"
    by (cases ev) simp_all
  then show ?thesis
  proof cases
    case 1
    with assms obtain r where "filter is_slot rest = [go_Process r]" "h = 0"
      by (cases "filter is_slot rest" rule: acquired.cases) simp_all
    with 1 show ?thesis by simp
  next
    case 2
    with assms show ?thesis by simp
  next
    case 3
    with assms have "filter is_slot rest = []" "h = 1"
      by (cases "filter is_slot rest" rule: acquired.cases; simp)+
    with 3 show ?thesis by simp
  qed
qed


lemma pending_after_iteration [simp]: "pending (after_iteration fl i) = []"
  by (cases fl) simp_all

lemma spawned_nonempty:
  "filter (\<lambda>t. t = []) (spawned e ev) = []" "list_all releases (spawned e ev)"
  by (cases ev; simp add: releases_task; simp add: task_def FreeOne_def case_prod_beta)+

lemma slot_inv_step_loop:
  assumes "slot_inv s" and "step_loop self e s = Some s'"
  shows "slot_inv s'"
proof (cases "loop s")
  case Loop_idle
  with assms show ?thesis by (simp add: step_loop_def)
next
  case (Loop_iterate i)
  obtain evs fl where it: "iteration self e i = (evs, fl)"
    by (cases "iteration self e i")
  with acquired_iteration [of self e i] have "acquired (filter is_slot evs) = Some 0" by simp
  with assms Loop_iterate it show ?thesis
    by (auto simp add: slot_inv_def step_loop_def)
next
  case (Loop_exec evs fl i)
  show ?thesis
  proof (cases evs)
    case Nil
    with assms Loop_exec show ?thesis by (auto simp add: slot_inv_def step_loop_def)
  next
    case (Cons ev rest)
    let ?h = "count_list (trace s) Spider_RequestUse - length (tasks s)"
    let ?u = "if ev = Spider_RequestUse then 1 else 0 :: nat"
    from assms(1) Loop_exec Cons have a: "acquired (filter is_slot (ev # rest)) = Some ?h"
      and le: "length (tasks s) \<le> count_list (trace s) Spider_RequestUse"
      and fr: "count_list (trace s) Spider_RequestFree = length (filter (\<lambda>t. t = []) (tasks s))"
      and rel: "list_all releases (tasks s)"
      by (simp_all add: slot_inv_def)
    from acquired_pop [OF a, of e] have
      p1: "acquired (filter is_slot rest) = Some (?h + ?u - length (spawned e ev))"
      and p2: "length (spawned e ev) \<le> ?h + ?u"
      and p3: "ev \<noteq> Spider_RequestFree"
      by simp_all
    from assms(2) Loop_exec Cons have s':
      "s' = s\<lparr>loop := Loop_exec rest fl i, tasks := tasks s @ spawned e ev,
              trace := trace s @ [ev]\<rparr>"
      by (simp add: step_loop_def)
    have c: "count_list (trace s') Spider_RequestUse = count_list (trace s) Spider_RequestUse + ?u"
      by (simp add: s')
    have l: "length (tasks s') = length (tasks s) + length (spawned e ev)"
      by (simp add: s')
    have "?h + ?u - length (spawned e ev)
            = count_list (trace s') Spider_RequestUse - length (tasks s')"
      using le p2 unfolding c l by arith
    with p1 have g1: "acquired (filter is_slot (pending (loop s')))
            = Some (count_list (trace s') Spider_RequestUse - length (tasks s'))"
      by (simp add: s')
    have g2: "length (tasks s') \<le> count_list (trace s') Spider_RequestUse"
      using le p2 unfolding c l by arith
    have g3: "count_list (trace s') Spider_RequestFree
                = length (filter (\<lambda>t. t = []) (tasks s'))"
      using fr p3 by (simp add: s' spawned_nonempty)
    have g4: "list_all releases (tasks s')"
      using rel by (simp add: s' spawned_nonempty)
    from g1 g2 g3 g4 show ?thesis by (simp add: slot_inv_def)
  qed
next
  case Loop_Defer
  with assms show ?thesis
    by (auto simp add: slot_inv_def step_loop_def split: if_splits)
next
  case Loop_close
  with assms show ?thesis by (auto simp add: slot_inv_def step_loop_def)
next
  case Loop_done
  with assms show ?thesis by (simp add: step_loop_def)
next
  case (Loop_panicked p)
  with assms show ?thesis by (simp add: step_loop_def)
qed

lemma length_filter_update:
  assumes "k < length xs"
  shows "length (filter P (xs[k := y])) + (if P (xs ! k) then 1 else 0)
           = length (filter P xs) + (if P y then 1 else 0)"
  using assms
proof (induction xs arbitrary: k)
  case Nil
  then show ?case by simp
next
  case (Cons x xs)
  then show ?case by (cases k) auto
qed

lemma releases_pop:
  assumes "releases (ev # rest)"
  shows "releases rest"
    and "ev \<noteq> Spider_RequestUse"
    and "(ev = Spider_RequestFree) = (rest = [])"
proof -
  from assms have f: "filter is_slot (ev # rest) = [Spider_RequestFree]"
    and l: "last (ev # rest) = Spider_RequestFree"
    by (simp_all add: releases_def)
  show "ev \<noteq> Spider_RequestUse" using f by (auto split: if_splits)
  show eq: "(ev = Spider_RequestFree) = (rest = [])"
  proof
    assume "ev = Spider_RequestFree"
    with f have "filter is_slot rest = []" by simp
    then have "\<forall>x\<in>set rest. \<not> is_slot x" by (simp add: filter_empty_conv)
    moreover have "rest \<noteq> [] \<Longrightarrow> last rest \<in> set rest" by simp
    moreover have "rest \<noteq> [] \<Longrightarrow> last rest = Spider_RequestFree" using l by simp
    ultimately show "rest = []" by force
  next
    assume "rest = []"
    with l show "ev = Spider_RequestFree" by simp
  qed
  show "releases rest"
  proof (cases "rest = []")
    case True
    then show ?thesis by (simp add: releases_def)
  next
    case False
    with eq have "ev \<noteq> Spider_RequestFree" by simp
    with f \<open>ev \<noteq> Spider_RequestUse\<close> have "filter is_slot rest = [Spider_RequestFree]"
      by (auto split: if_splits)
    with l False show ?thesis by (simp add: releases_def)
  qed
qed

lemma slot_inv_step_task:
  assumes "slot_inv s" and "step_task k s = Some s'"
  shows "slot_inv s'"
proof -
  from assms(2) obtain ev rest where
    k: "k < length (tasks s)" and t: "tasks s ! k = ev # rest"
    and s': "s' = s\<lparr>tasks := (tasks s)[k := rest], trace := trace s @ [ev]\<rparr>"
    by (auto simp add: step_task_def split: if_splits list.splits)
  from assms(1) have rel: "list_all releases (tasks s)" by (simp add: slot_inv_def)
  with k t have "releases (ev # rest)" by (metis list_all_length)
  note pop = releases_pop [OF this]
  have g4: "list_all releases (tasks s')"
    using rel pop(1) by (simp add: s' list_all_update)
  have "length (filter (\<lambda>t. t = []) ((tasks s)[k := rest]))
          + (if tasks s ! k = [] then 1 else 0)
        = length (filter (\<lambda>t. t = []) (tasks s)) + (if rest = [] then 1 else 0)"
    using k by (rule length_filter_update)
  with t have "length (filter (\<lambda>t. t = []) (tasks s'))
        = length (filter (\<lambda>t. t = []) (tasks s)) + (if rest = [] then 1 else 0)"
    by (simp add: s')
  with assms(1) pop(3) have g3: "count_list (trace s') Spider_RequestFree
                = length (filter (\<lambda>t. t = []) (tasks s'))"
    by (simp add: slot_inv_def s')
  from assms(1) pop(2) g3 g4 show ?thesis
    by (simp add: slot_inv_def s')
qed

lemma both_inv_exec:
  assumes "lifecycle_inv s \<and> slot_inv s" and "exec self e sched s = Some s'"
  shows "lifecycle_inv s' \<and> slot_inv s'"
  using assms
proof (induction sched arbitrary: s)
  case Nil
  then show ?case by simp
next
  case (Cons t ts)
  from Cons.prems(2) obtain s1 where
    st: "step self e t s = Some s1" and ex: "exec self e ts s1 = Some s'"
    by (auto split: option.splits)
  from Cons.prems(1) st have "lifecycle_inv s1" by (blast intro: lifecycle_inv_step)
  moreover from Cons.prems(1) st have "slot_inv s1"
    by (cases t)
      (auto intro: slot_inv_step_main slot_inv_step_loop slot_inv_step_task)
  ultimately show ?case using Cons.IH ex by blast
qed

lemma slot_inv_Run:
  assumes "Run self e sched = Some s"
  shows "slot_inv s"
  using assms both_inv_exec [of start self e sched s] lifecycle_inv_start slot_inv_start
  by (simp add: Run_def)

text \<open>
  C4. An iteration that admits a request acquires exactly one slot, right before it
  starts the task, and an iteration that pulls nothing acquires none; a task releases
  exactly one slot, as its last event, whatever \<^verbatim>\<open>Process\<close> does; and in every
  interleaving the releases so far are one per task ended and never more than the
  acquires, and when \<^verbatim>\<open>Run\<close> has stopped the pipeline every acquired slot has been
  released.
\<close>

theorem slot_acquire_release_paired:
  "filter is_slot (fst (iteration self e i)) =
     (case RequestPull e i of None \<Rightarrow> [] | Some req \<Rightarrow> [Spider_RequestUse, go_Process req])
   \<and> filter is_slot (fst (task e req)) = [Spider_RequestFree]
   \<and> last (fst (task e req)) = Spider_RequestFree
   \<and> (\<forall>s. Run self e sched = Some s \<longrightarrow>
         count_list (trace s) Spider_RequestFree = length (filter (\<lambda>t. t = []) (tasks s))
       \<and> count_list (trace s) Spider_RequestFree \<le> count_list (trace s) Spider_RequestUse
       \<and> (Pipeline_Stop \<in> set (trace s) \<longrightarrow>
             count_list (trace s) Spider_RequestUse = count_list (trace s) Spider_RequestFree))"
proof (intro conjI allI impI)
  show "filter is_slot (fst (iteration self e i)) =
     (case RequestPull e i of None \<Rightarrow> [] | Some req \<Rightarrow> [Spider_RequestUse, go_Process req])"
    by (rule slots_iteration)
  show "filter is_slot (fst (task e req)) = [Spider_RequestFree]"
    by (rule slots_task)
  show "last (fst (task e req)) = Spider_RequestFree"
    by (rule slots_task)
next
  fix s
  assume run: "Run self e sched = Some s"
  then have si: "slot_inv s" by (rule slot_inv_Run)
  then show fr: "count_list (trace s) Spider_RequestFree
                   = length (filter (\<lambda>t. t = []) (tasks s))"
    by (simp add: slot_inv_def)
  have "length (filter (\<lambda>t. t = []) (tasks s)) \<le> length (tasks s)" by simp
  also from si have "\<dots> \<le> count_list (trace s) Spider_RequestUse"
    by (simp add: slot_inv_def)
  finally show "count_list (trace s) Spider_RequestFree \<le> count_list (trace s) Spider_RequestUse"
    by (simp add: fr)
  assume stop: "Pipeline_Stop \<in> set (trace s)"
  from run have li: "lifecycle_inv s" by (rule lifecycle_inv_Run)
  from stop have "Pipeline_Stop \<in> set (filter is_Run_event (trace s))" by simp
  with li have "Pipeline_Stop \<in> set (main_done (main s))" by (simp add: lifecycle_inv_def)
  then have "main s = Main_returned" by (cases "main s") simp_all
  with li have d: "loop s = Loop_done" by (auto simp add: lifecycle_inv_def)
  with li have "list_all (\<lambda>t. t = []) (tasks s)" by (simp add: lifecycle_inv_def)
  then have "filter (\<lambda>t. t = []) (tasks s) = tasks s"
    by (simp add: list_all_iff)
  with fr have "count_list (trace s) Spider_RequestFree = length (tasks s)" by simp
  moreover from si d have "count_list (trace s) Spider_RequestUse = length (tasks s)"
    by (simp add: slot_inv_def)
  ultimately show "count_list (trace s) Spider_RequestUse
                     = count_list (trace s) Spider_RequestFree"
    by simp
qed

theorem slot_acquire_release_paired_witness:
  "filter is_slot (fst (iteration (Init (New 1) 1000) env_transient 1)) =
     [Spider_RequestUse, go_Process req1]
   \<and> filter is_slot (fst (task env_transient req1)) = [Spider_RequestFree]
   \<and> (case Run (Init (New 1) 1000) env_transient schedule1 of
         None \<Rightarrow> False
       | Some s \<Rightarrow>
           Pipeline_Stop \<in> set (trace s)
           \<and> count_list (trace s) Spider_RequestUse = 1
           \<and> count_list (trace s) Spider_RequestFree = 1)"
  using slot_acquire_release_paired [of "Init (New 1) 1000" env_transient 1 req1 schedule1]
  by (simp add: Run_transient iteration_transient task_transient)

end
